theory Spec2Isabelle
  imports Main "HOL-Library.Signed_Division"
begin

section \<open>The Vigenere cipher engine of vigenere.cpp\<close>

subsection \<open>Characters and C++ integer arithmetic\<close>

text \<open>
  A \<open>std::string\<close> is a sequence of bytes, modelled as \<^typ>\<open>string\<close>. In an arithmetic
  expression a plain \<open>char\<close> is promoted to \<open>int\<close>; plain \<open>char\<close> is taken to be signed
  (as on x86), so bytes above 127 promote to negative values. All characters the
  properties below speak about are ASCII, where signedness plays no role.
  Converting an \<open>int\<close> back to \<open>char\<close> keeps the low eight bits.
\<close>

definition char_to_int :: "char \<Rightarrow> int" where
  "char_to_int c = (let n = of_char c in if n < 128 then n else n - 256)"

definition int_to_char :: "int \<Rightarrow> char" where
  "int_to_char n = char_of n"

text \<open>\<open>std::isalpha\<close> in the default "C" locale: exactly the 52 ASCII letters.\<close>

definition isalpha :: "char \<Rightarrow> bool" where
  "isalpha c = (let n = char_to_int c in (65 \<le> n \<and> n \<le> 90) \<or> (97 \<le> n \<and> n \<le> 122))"

text \<open>The \<open>%\<close> of C++ truncates towards zero: it is \<open>smod\<close> on \<^typ>\<open>int\<close>.\<close>

definition shiftForward :: "char \<Rightarrow> int \<Rightarrow> char" where
  "shiftForward ch n = int_to_char (char_to_int CHR ''A'' + (char_to_int ch - char_to_int CHR ''A'' + n) smod 26)"

definition shiftBackward :: "char \<Rightarrow> int \<Rightarrow> char" where
  "shiftBackward ch n = int_to_char (char_to_int CHR ''A'' + (char_to_int ch - char_to_int CHR ''A'' - n + 26) smod 26)"

subsection \<open>The engine\<close>

record Vigenere =
  key :: string

text \<open>
  The faults of the program: \<open>i % keyLength\<close> with a zero divisor, and \<open>key[pos]\<close> with
  \<open>pos\<close> beyond the size of the key. Either aborts the call, so a faulting operation
  yields neither a result nor a successor state.
\<close>

datatype fault = ModuloByZero | KeyIndexOutOfRange

definition Vigenere_new :: "string \<Rightarrow> Vigenere" where
  "Vigenere_new k = \<lparr>key = k\<rparr>"

definition setKey :: "string \<Rightarrow> Vigenere \<Rightarrow> Vigenere" where
  "setKey newKey v = v\<lparr>key := newKey\<rparr>"

text \<open>
  \<open>int keyLength = key.length()\<close> narrows the 64-bit \<open>size_t\<close> to a 32-bit \<open>int\<close>: the low
  32 bits, read as a signed value. In \<open>i % keyLength\<close> the \<open>int\<close> is converted back to
  \<open>size_t\<close>, modulo \<open>2^64\<close>, and the remainder is unsigned.
\<close>

definition size_to_int :: "nat \<Rightarrow> int" where
  "size_to_int n = (let m = int n mod 2 ^ 32 in if m < 2 ^ 31 then m else m - 2 ^ 32)"

definition int_to_size :: "int \<Rightarrow> nat" where
  "int_to_size x = nat (x mod 2 ^ 64)"

text \<open>
  \<open>std::string::operator[]\<close>: the character at \<open>pos\<close> below the size, the null character
  at \<open>pos\<close> equal to the size, and no defined result beyond.
\<close>

definition string_at :: "string \<Rightarrow> nat \<Rightarrow> fault + char" where
  "string_at str pos =
     (if pos < length str then Inr (str ! pos)
      else if pos = length str then Inr (CHR 0x00)
      else Inl KeyIndexOutOfRange)"

text \<open>
  The \<open>for\<close> loop of \<open>encrypt\<close>: \<open>i\<close> is the loop index, \<open>encrypted\<close> the string built so
  far. The key is read at \<open>i % keyLength\<close>, inside the alphabetic branch only.
\<close>

function encrypt_loop :: "string \<Rightarrow> int \<Rightarrow> string \<Rightarrow> nat \<Rightarrow> string \<Rightarrow> fault + string" where
  "encrypt_loop k keyLength msg i encrypted =
     (if i < length msg then
        (if isalpha (msg ! i) then
           (if int_to_size keyLength = 0 then Inl ModuloByZero
            else case string_at k (i mod int_to_size keyLength) of
                   Inl f \<Rightarrow> Inl f
                 | Inr kc \<Rightarrow>
                     let shift = char_to_int kc - char_to_int CHR ''A''
                     in encrypt_loop k keyLength msg (Suc i)
                          (encrypted @ [shiftForward (msg ! i) shift]))
         else encrypt_loop k keyLength msg (Suc i) (encrypted @ [msg ! i]))
      else Inr encrypted)"
  by pat_completeness auto
termination
  by (relation "measure (\<lambda>(k, keyLength, msg, i, encrypted). length msg - i)") auto

function decrypt_loop :: "string \<Rightarrow> int \<Rightarrow> string \<Rightarrow> nat \<Rightarrow> string \<Rightarrow> fault + string" where
  "decrypt_loop k keyLength msg i decrypted =
     (if i < length msg then
        (if isalpha (msg ! i) then
           (if int_to_size keyLength = 0 then Inl ModuloByZero
            else case string_at k (i mod int_to_size keyLength) of
                   Inl f \<Rightarrow> Inl f
                 | Inr kc \<Rightarrow>
                     let shift = char_to_int kc - char_to_int CHR ''A''
                     in decrypt_loop k keyLength msg (Suc i)
                          (decrypted @ [shiftBackward (msg ! i) shift]))
         else decrypt_loop k keyLength msg (Suc i) (decrypted @ [msg ! i]))
      else Inr decrypted)"
  by pat_completeness auto
termination
  by (relation "measure (\<lambda>(k, keyLength, msg, i, decrypted). length msg - i)") auto

declare encrypt_loop.simps [simp del] decrypt_loop.simps [simp del]

text \<open>
  The member functions take the engine and return the result with the engine after the
  call (none of them is \<open>const\<close>), or the fault.
\<close>

definition encrypt :: "string \<Rightarrow> Vigenere \<Rightarrow> fault + (string \<times> Vigenere)" where
  "encrypt msg v =
     (let keyLength = size_to_int (length (key v))
      in case encrypt_loop (key v) keyLength msg 0 [] of
           Inl f \<Rightarrow> Inl f
         | Inr encrypted \<Rightarrow> Inr (encrypted, v))"

definition decrypt :: "string \<Rightarrow> Vigenere \<Rightarrow> fault + (string \<times> Vigenere)" where
  "decrypt msg v =
     (let keyLength = size_to_int (length (key v))
      in case decrypt_loop (key v) keyLength msg 0 [] of
           Inl f \<Rightarrow> Inl f
         | Inr decrypted \<Rightarrow> Inr (decrypted, v))"

definition isEncrypted :: "string \<Rightarrow> string \<Rightarrow> Vigenere \<Rightarrow> fault + (bool \<times> Vigenere)" where
  "isEncrypted encryptedMsg decryptedMessage v =
     (case encrypt decryptedMessage v of
        Inl f \<Rightarrow> Inl f
      | Inr (e, v') \<Rightarrow> Inr (encryptedMsg = e, v'))"

subsection \<open>Vocabulary of the properties\<close>

text \<open>
  The character classes the properties speak about, the shift read from the key at a
  loop index, and the character each loop appends at a loop index.
\<close>

definition upper_AZ :: "char \<Rightarrow> bool" where
  "upper_AZ c = (char_to_int CHR ''A'' \<le> char_to_int c \<and> char_to_int c \<le> char_to_int CHR ''Z'')"

definition lower_az :: "char \<Rightarrow> bool" where
  "lower_az c = (char_to_int CHR ''a'' \<le> char_to_int c \<and> char_to_int c \<le> char_to_int CHR ''z'')"

definition key_shift :: "string \<Rightarrow> nat \<Rightarrow> int" where
  "key_shift k i = char_to_int (k ! (i mod length k)) - char_to_int CHR ''A''"

definition encrypt_at :: "string \<Rightarrow> string \<Rightarrow> nat \<Rightarrow> char" where
  "encrypt_at k msg i = (if isalpha (msg ! i) then shiftForward (msg ! i) (key_shift k i) else msg ! i)"

definition decrypt_at :: "string \<Rightarrow> string \<Rightarrow> nat \<Rightarrow> char" where
  "decrypt_at k msg i = (if isalpha (msg ! i) then shiftBackward (msg ! i) (key_shift k i) else msg ! i)"

text \<open>
  The key-position cursor as the specification words it: the number of alphabetic
  characters among the first \<open>n\<close> characters of the message.
\<close>

definition alpha_count :: "string \<Rightarrow> nat \<Rightarrow> nat" where
  "alpha_count msg n = length (filter isalpha (take n msg))"

section \<open>Auxiliary facts\<close>

subsection \<open>Characters and shifts\<close>

lemma char_to_int_A: "char_to_int CHR ''A'' = 65"
  by (simp add: char_to_int_def)

lemma char_to_int_Z: "char_to_int CHR ''Z'' = 90"
  by (simp add: char_to_int_def)

lemma char_to_int_a: "char_to_int CHR ''a'' = 97"
  by (simp add: char_to_int_def)

lemma char_to_int_z: "char_to_int CHR ''z'' = 122"
  by (simp add: char_to_int_def)

lemma int_to_char_char_to_int: "int_to_char (char_to_int c) = c"
proof -
  have "char_of ((of_char c :: int) - 256) = char_of (of_char c :: int)"
    by (simp only: char_of_quasi_inj) simp
  then show ?thesis
    by (simp add: int_to_char_def char_to_int_def Let_def)
qed

lemma char_to_int_int_to_char: "0 \<le> n \<Longrightarrow> n < 128 \<Longrightarrow> char_to_int (int_to_char n) = n"
  by (simp add: int_to_char_def char_to_int_def Let_def)

lemma smod_nonneg: "0 \<le> a \<Longrightarrow> (a::int) smod 26 = a mod 26"
  by (simp add: signed_modulo_int_def sgn_if)

lemma shiftForward_upper:
  assumes "upper_AZ ch" "0 \<le> n"
  shows "shiftForward ch n = int_to_char (65 + (char_to_int ch - 65 + n) mod 26)"
  using assms by (simp add: shiftForward_def upper_AZ_def char_to_int_A smod_nonneg)

lemma shiftForward_upper_val:
  assumes "upper_AZ ch" "0 \<le> n"
  shows "char_to_int (shiftForward ch n) = 65 + (char_to_int ch - 65 + n) mod 26"
proof -
  let ?r = "(char_to_int ch - 65 + n) mod 26"
  have "0 \<le> ?r" "?r < 26" by simp_all
  then have "char_to_int (int_to_char (65 + ?r)) = 65 + ?r"
    by (intro char_to_int_int_to_char) linarith+
  then show ?thesis using assms by (simp add: shiftForward_upper)
qed

lemma shiftForward_upper_AZ:
  assumes "upper_AZ ch" "0 \<le> n"
  shows "upper_AZ (shiftForward ch n)"
proof -
  let ?r = "(char_to_int ch - 65 + n) mod 26"
  have "0 \<le> ?r" "?r < 26" by simp_all
  then show ?thesis
    using shiftForward_upper_val [OF assms]
    by (simp add: upper_AZ_def char_to_int_A char_to_int_Z)
qed

lemma upper_AZ_isalpha: "upper_AZ c \<Longrightarrow> isalpha c"
  by (simp add: upper_AZ_def isalpha_def char_to_int_A char_to_int_Z Let_def)

lemma shift_roundtrip:
  assumes "upper_AZ ch" "0 \<le> n" "n < 26"
  shows "shiftBackward (shiftForward ch n) n = ch"
proof -
  let ?x = "char_to_int ch - 65"
  let ?r = "(?x + n) mod 26"
  have x: "0 \<le> ?x" "?x < 26"
    using assms(1) by (simp_all add: upper_AZ_def char_to_int_A char_to_int_Z)
  have r: "0 \<le> ?r" "?r < 26" by simp_all
  have "(?r - n + 26) mod 26 = ?x"
  proof -
    have "(?r - n + 26) mod 26 = (?r - n) mod 26" by simp
    also have "\<dots> = (?x + n - n) mod 26" by (simp add: mod_diff_left_eq)
    also have "\<dots> = ?x" using x by simp
    finally show ?thesis .
  qed
  moreover have "0 \<le> ?r - n + 26" using r assms by linarith
  ultimately have "(?r - n + 26) smod 26 = ?x" by (simp add: smod_nonneg)
  then have "shiftBackward (shiftForward ch n) n = int_to_char (65 + ?x)"
    using shiftForward_upper_val [OF assms(1,2)]
    by (simp add: shiftBackward_def char_to_int_A)
  then show ?thesis by (simp add: int_to_char_char_to_int)
qed

subsection \<open>The loops in closed form\<close>

lemma size_to_int_small: "n < 2 ^ 31 \<Longrightarrow> size_to_int n = int n"
  by (simp add: size_to_int_def Let_def)

lemma int_to_size_nat: "n < 2 ^ 31 \<Longrightarrow> int_to_size (int n) = n"
  by (simp add: int_to_size_def)

lemma key_length_roundtrip:
  "length k < 2 ^ 31 \<Longrightarrow> int_to_size (size_to_int (length k)) = length k"
  by (simp add: size_to_int_small int_to_size_nat)

lemma encrypt_loop_in_range:
  assumes "k \<noteq> []" and "int_to_size keyLength = length k"
  shows "encrypt_loop k keyLength msg i acc = Inr (acc @ map (encrypt_at k msg) [i..<length msg])"
proof (induction "length msg - i" arbitrary: i acc)
  case 0
  then show ?case by (simp add: encrypt_loop.simps [of k keyLength msg i])
next
  case (Suc n)
  then have lt: "i < length msg" and n: "n = length msg - Suc i" by simp_all
  have upt: "[i..<length msg] = i # [Suc i..<length msg]"
    using lt by (simp add: upt_conv_Cons)
  have nz: "int_to_size keyLength \<noteq> 0" using assms by simp
  have rd: "string_at k (i mod int_to_size keyLength) = Inr (k ! (i mod length k))"
    using assms by (simp add: string_at_def)
  show ?case
  proof (cases "isalpha (msg ! i)")
    case True
    have "encrypt_loop k keyLength msg i acc =
          encrypt_loop k keyLength msg (Suc i) (acc @ [shiftForward (msg ! i) (key_shift k i)])"
      using lt True nz rd by (simp add: encrypt_loop.simps [of k keyLength msg i] key_shift_def)
    also have "\<dots> = Inr ((acc @ [shiftForward (msg ! i) (key_shift k i)]) @
                       map (encrypt_at k msg) [Suc i..<length msg])"
      by (rule Suc.hyps(1) [OF n])
    finally show ?thesis using True by (simp add: upt encrypt_at_def)
  next
    case False
    have "encrypt_loop k keyLength msg i acc = encrypt_loop k keyLength msg (Suc i) (acc @ [msg ! i])"
      using lt False by (simp add: encrypt_loop.simps [of k keyLength msg i])
    also have "\<dots> = Inr ((acc @ [msg ! i]) @ map (encrypt_at k msg) [Suc i..<length msg])"
      by (rule Suc.hyps(1) [OF n])
    finally show ?thesis using False by (simp add: upt encrypt_at_def)
  qed
qed

lemma decrypt_loop_in_range:
  assumes "k \<noteq> []" and "int_to_size keyLength = length k"
  shows "decrypt_loop k keyLength msg i acc = Inr (acc @ map (decrypt_at k msg) [i..<length msg])"
proof (induction "length msg - i" arbitrary: i acc)
  case 0
  then show ?case by (simp add: decrypt_loop.simps [of k keyLength msg i])
next
  case (Suc n)
  then have lt: "i < length msg" and n: "n = length msg - Suc i" by simp_all
  have upt: "[i..<length msg] = i # [Suc i..<length msg]"
    using lt by (simp add: upt_conv_Cons)
  have nz: "int_to_size keyLength \<noteq> 0" using assms by simp
  have rd: "string_at k (i mod int_to_size keyLength) = Inr (k ! (i mod length k))"
    using assms by (simp add: string_at_def)
  show ?case
  proof (cases "isalpha (msg ! i)")
    case True
    have "decrypt_loop k keyLength msg i acc =
          decrypt_loop k keyLength msg (Suc i) (acc @ [shiftBackward (msg ! i) (key_shift k i)])"
      using lt True nz rd by (simp add: decrypt_loop.simps [of k keyLength msg i] key_shift_def)
    also have "\<dots> = Inr ((acc @ [shiftBackward (msg ! i) (key_shift k i)]) @
                       map (decrypt_at k msg) [Suc i..<length msg])"
      by (rule Suc.hyps(1) [OF n])
    finally show ?thesis using True by (simp add: upt decrypt_at_def)
  next
    case False
    have "decrypt_loop k keyLength msg i acc = decrypt_loop k keyLength msg (Suc i) (acc @ [msg ! i])"
      using lt False by (simp add: decrypt_loop.simps [of k keyLength msg i])
    also have "\<dots> = Inr ((acc @ [msg ! i]) @ map (decrypt_at k msg) [Suc i..<length msg])"
      by (rule Suc.hyps(1) [OF n])
    finally show ?thesis using False by (simp add: upt decrypt_at_def)
  qed
qed

lemma encrypt_nonempty:
  "key v \<noteq> [] \<Longrightarrow> length (key v) < 2 ^ 31 \<Longrightarrow>
   encrypt msg v = Inr (map (encrypt_at (key v) msg) [0..<length msg], v)"
  by (simp add: encrypt_def encrypt_loop_in_range key_length_roundtrip)

lemma decrypt_nonempty:
  "key v \<noteq> [] \<Longrightarrow> length (key v) < 2 ^ 31 \<Longrightarrow>
   decrypt msg v = Inr (map (decrypt_at (key v) msg) [0..<length msg], v)"
  by (simp add: decrypt_def decrypt_loop_in_range key_length_roundtrip)

lemma encrypt_loop_zero_divisor:
  assumes "int_to_size keyLength = 0"
  shows "encrypt_loop k keyLength msg i acc =
     (if \<exists>c \<in> set (drop i msg). isalpha c then Inl ModuloByZero
      else Inr (acc @ drop i msg))"
proof (induction "length msg - i" arbitrary: i acc)
  case 0
  then show ?case by (simp add: encrypt_loop.simps [of k keyLength msg i])
next
  case (Suc n)
  then have lt: "i < length msg" and n: "n = length msg - Suc i" by simp_all
  have dr: "drop i msg = msg ! i # drop (Suc i) msg"
    using lt by (simp add: Cons_nth_drop_Suc)
  show ?case
  proof (cases "isalpha (msg ! i)")
    case True
    then show ?thesis
      using lt assms by (simp add: encrypt_loop.simps [of k keyLength msg i] dr)
  next
    case False
    have "encrypt_loop k keyLength msg i acc = encrypt_loop k keyLength msg (Suc i) (acc @ [msg ! i])"
      using lt False by (simp add: encrypt_loop.simps [of k keyLength msg i])
    then show ?thesis
      using Suc.hyps(1) [OF n, of "acc @ [msg ! i]"] False by (simp add: dr)
  qed
qed

lemma decrypt_loop_zero_divisor:
  assumes "int_to_size keyLength = 0"
  shows "decrypt_loop k keyLength msg i acc =
     (if \<exists>c \<in> set (drop i msg). isalpha c then Inl ModuloByZero
      else Inr (acc @ drop i msg))"
proof (induction "length msg - i" arbitrary: i acc)
  case 0
  then show ?case by (simp add: decrypt_loop.simps [of k keyLength msg i])
next
  case (Suc n)
  then have lt: "i < length msg" and n: "n = length msg - Suc i" by simp_all
  have dr: "drop i msg = msg ! i # drop (Suc i) msg"
    using lt by (simp add: Cons_nth_drop_Suc)
  show ?case
  proof (cases "isalpha (msg ! i)")
    case True
    then show ?thesis
      using lt assms by (simp add: decrypt_loop.simps [of k keyLength msg i] dr)
  next
    case False
    have "decrypt_loop k keyLength msg i acc = decrypt_loop k keyLength msg (Suc i) (acc @ [msg ! i])"
      using lt False by (simp add: decrypt_loop.simps [of k keyLength msg i])
    then show ?thesis
      using Suc.hyps(1) [OF n, of "acc @ [msg ! i]"] False by (simp add: dr)
  qed
qed

lemma zero_key_length: "int_to_size (size_to_int 0) = 0"
  by (simp add: size_to_int_def int_to_size_def)

text \<open>
  A key of \<open>2^32\<close> bytes has \<open>keyLength = 0\<close> and faults like the empty key: the
  properties of a non-empty key below are stated for keys whose length fits \<open>int\<close>.
\<close>

lemma encrypt_key_length_wraps:
  assumes "length (key v) = 2 ^ 32" and "\<exists>c \<in> set msg. isalpha c"
  shows "encrypt msg v = Inl ModuloByZero"
proof -
  have "size_to_int (length (key v)) = 0"
    by (simp add: assms(1) size_to_int_def)
  then have "int_to_size (size_to_int (length (key v))) = 0"
    by (simp add: int_to_size_def)
  then show ?thesis
    using assms(2) by (simp add: encrypt_def encrypt_loop_zero_divisor)
qed

lemma encrypt_empty_key:
  "key v = [] \<Longrightarrow> encrypt msg v =
     (if \<exists>c \<in> set msg. isalpha c then Inl ModuloByZero else Inr (msg, v))"
  by (simp add: encrypt_def encrypt_loop_zero_divisor zero_key_length)

lemma decrypt_empty_key:
  "key v = [] \<Longrightarrow> decrypt msg v =
     (if \<exists>c \<in> set msg. isalpha c then Inl ModuloByZero else Inr (msg, v))"
  by (simp add: decrypt_def decrypt_loop_zero_divisor zero_key_length)

subsection \<open>Shifts under an uppercase key\<close>

lemma key_shift_range:
  assumes "k \<noteq> []" and "\<forall>c \<in> set k. upper_AZ c"
  shows "0 \<le> key_shift k i \<and> key_shift k i < 26"
proof -
  have "i mod length k < length k" using assms(1) by simp
  then have "upper_AZ (k ! (i mod length k))" using assms(2) by simp
  then show ?thesis
    by (simp add: key_shift_def upper_AZ_def char_to_int_A char_to_int_Z)
qed

lemma decrypt_at_encrypt_at:
  assumes k: "k \<noteq> []" "\<forall>c \<in> set k. upper_AZ c"
    and m: "isalpha (msg ! i) \<longrightarrow> upper_AZ (msg ! i)"
    and c: "ct ! i = encrypt_at k msg i"
  shows "decrypt_at k ct i = msg ! i"
proof (cases "isalpha (msg ! i)")
  case True
  then have up: "upper_AZ (msg ! i)" using m by simp
  have s: "0 \<le> key_shift k i" "key_shift k i < 26"
    using key_shift_range [OF k] by simp_all
  have ct: "ct ! i = shiftForward (msg ! i) (key_shift k i)"
    using c True by (simp add: encrypt_at_def)
  have "isalpha (ct ! i)"
    using shiftForward_upper_AZ [OF up s(1)] ct by (simp add: upper_AZ_isalpha)
  then show ?thesis
    using shift_roundtrip [OF up s] ct by (simp add: decrypt_at_def)
next
  case False
  then show ?thesis using c by (simp add: encrypt_at_def decrypt_at_def)
qed

lemma encrypt_at_key_A:
  assumes "isalpha (msg ! i) \<longrightarrow> upper_AZ (msg ! i)"
  shows "encrypt_at ''A'' msg i = msg ! i"
proof (cases "isalpha (msg ! i)")
  case True
  then have up: "upper_AZ (msg ! i)" using assms by simp
  then have x: "0 \<le> char_to_int (msg ! i) - 65" "char_to_int (msg ! i) - 65 < 26"
    by (simp_all add: upper_AZ_def char_to_int_A char_to_int_Z)
  have "key_shift ''A'' i = 0" by (simp add: key_shift_def)
  then have "shiftForward (msg ! i) (key_shift ''A'' i) =
             int_to_char (65 + (char_to_int (msg ! i) - 65) mod 26)"
    using shiftForward_upper [OF up, of 0] by simp
  also have "\<dots> = int_to_char (char_to_int (msg ! i))" using x by simp
  finally show ?thesis using True by (simp add: encrypt_at_def int_to_char_char_to_int)
next
  case False
  then show ?thesis by (simp add: encrypt_at_def)
qed

section \<open>The properties\<close>

text \<open>
  C1, as the code has it: for a non-empty key whose length fits the \<open>int\<close> variable
  \<open>keyLength\<close> (below \<open>2^31\<close>), the alphabetic character at position \<open>i\<close>
  of the message is shifted by the key character at index \<open>i mod keyLength\<close>, where \<open>i\<close>
  is its position in the whole message, in \<open>encrypt\<close> and in \<open>decrypt\<close> alike. Every
  earlier character advances the key position, alphabetic or not.
\<close>

theorem C1_key_index_is_loop_index:
  assumes "key v \<noteq> []" and "length (key v) < 2 ^ 31"
    and "i < length msg" and "isalpha (msg ! i)"
  shows "\<exists>e d. encrypt msg v = Inr (e, v) \<and>
               e ! i = shiftForward (msg ! i)
                         (char_to_int (key v ! (i mod length (key v))) - char_to_int CHR ''A'') \<and>
               decrypt msg v = Inr (d, v) \<and>
               d ! i = shiftBackward (msg ! i)
                         (char_to_int (key v ! (i mod length (key v))) - char_to_int CHR ''A'')"
  using assms
  by (simp add: encrypt_nonempty decrypt_nonempty encrypt_at_def decrypt_at_def key_shift_def)

theorem C1_key_index_is_loop_index_witness:
  "key (Vigenere_new ''ABC'') \<noteq> [] \<and> length (key (Vigenere_new ''ABC'')) < 2 ^ 31 \<and>
   2 < length ''  A'' \<and> isalpha (''  A'' ! 2) \<and>
   (\<exists>e d. encrypt ''  A'' (Vigenere_new ''ABC'') = Inr (e, Vigenere_new ''ABC'') \<and>
          e ! 2 = shiftForward (''  A'' ! 2)
                    (char_to_int (key (Vigenere_new ''ABC'') ! (2 mod length (key (Vigenere_new ''ABC'')))) - char_to_int CHR ''A'') \<and>
          decrypt ''  A'' (Vigenere_new ''ABC'') = Inr (d, Vigenere_new ''ABC'') \<and>
          d ! 2 = shiftBackward (''  A'' ! 2)
                    (char_to_int (key (Vigenere_new ''ABC'') ! (2 mod length (key (Vigenere_new ''ABC'')))) - char_to_int CHR ''A''))"
proof -
  have k: "key (Vigenere_new ''ABC'') \<noteq> []" by (simp add: Vigenere_new_def)
  have b: "length (key (Vigenere_new ''ABC'')) < 2 ^ 31" by (simp add: Vigenere_new_def)
  have i: "2 < length ''  A''" by simp
  have a: "isalpha (''  A'' ! 2)" by (simp add: isalpha_def char_to_int_def)
  show ?thesis by (intro conjI k b i a C1_key_index_is_loop_index [OF k b i a])
qed

text \<open>
  The key index is not the count of alphabetic characters: after two blanks, the letter
  at position 2 is shifted by the key character at index 2, while the count of
  alphabetic characters is 1 with that letter and 0 without it.
\<close>

theorem C1_counterexample:
  "encrypt ''  A'' (Vigenere_new ''ABC'') = Inr (''  C'', Vigenere_new ''ABC'') \<and>
   2 mod length ''ABC'' \<noteq> alpha_count ''  A'' (Suc 2) mod length ''ABC'' \<and>
   2 mod length ''ABC'' \<noteq> alpha_count ''  A'' 2 mod length ''ABC'' \<and>
   ''  C'' ! 2 = shiftForward (''  A'' ! 2) (char_to_int (''ABC'' ! (2 mod length ''ABC'')) - char_to_int CHR ''A'') \<and>
   ''  C'' ! 2 \<noteq> shiftForward (''  A'' ! 2)
                  (char_to_int (''ABC'' ! (alpha_count ''  A'' (Suc 2) mod length ''ABC'')) - char_to_int CHR ''A'') \<and>
   ''  C'' ! 2 \<noteq> shiftForward (''  A'' ! 2)
                  (char_to_int (''ABC'' ! (alpha_count ''  A'' 2 mod length ''ABC'')) - char_to_int CHR ''A'') \<and>
   decrypt ''  C'' (Vigenere_new ''ABC'') = Inr (''  A'', Vigenere_new ''ABC'') \<and>
   ''  A'' ! 2 \<noteq> shiftBackward (''  C'' ! 2)
                  (char_to_int (''ABC'' ! (alpha_count ''  C'' (Suc 2) mod length ''ABC'')) - char_to_int CHR ''A'') \<and>
   ''  A'' ! 2 \<noteq> shiftBackward (''  C'' ! 2)
                  (char_to_int (''ABC'' ! (alpha_count ''  C'' 2 mod length ''ABC'')) - char_to_int CHR ''A'')"
  by code_simp

text \<open>
  C2: for a non-empty key of uppercase letters A-Z, of a length that fits the \<open>int\<close>
  variable \<open>keyLength\<close> (below \<open>2^31\<close>), and a message whose alphabetic
  characters are all uppercase A-Z, \<open>encrypt\<close> returns a ciphertext and \<open>decrypt\<close> of that
  ciphertext, under the same engine, returns the message.
\<close>

theorem C2_roundtrip:
  assumes "key v \<noteq> []" and "\<forall>c \<in> set (key v). upper_AZ c"
    and "\<forall>c \<in> set msg. isalpha c \<longrightarrow> upper_AZ c"
    and "length (key v) < 2 ^ 31"
  shows "\<exists>ct. encrypt msg v = Inr (ct, v) \<and> decrypt ct v = Inr (msg, v)"
proof -
  let ?ct = "map (encrypt_at (key v) msg) [0..<length msg]"
  have "map (decrypt_at (key v) ?ct) [0..<length ?ct] = msg"
  proof (rule nth_equalityI)
    show "length (map (decrypt_at (key v) ?ct) [0..<length ?ct]) = length msg" by simp
  next
    fix i assume "i < length (map (decrypt_at (key v) ?ct) [0..<length ?ct])"
    then have i: "i < length msg" by simp
    then have "isalpha (msg ! i) \<longrightarrow> upper_AZ (msg ! i)" using assms(3) by simp
    moreover have "?ct ! i = encrypt_at (key v) msg i" using i by simp
    ultimately have "decrypt_at (key v) ?ct i = msg ! i"
      using decrypt_at_encrypt_at [OF assms(1,2)] by blast
    then show "map (decrypt_at (key v) ?ct) [0..<length ?ct] ! i = msg ! i"
      using i by simp
  qed
  moreover have "decrypt ?ct v = Inr (map (decrypt_at (key v) ?ct) [0..<length ?ct], v)"
    using assms(1,4) by (rule decrypt_nonempty)
  ultimately have "decrypt ?ct v = Inr (msg, v)" by (simp only:)
  then show ?thesis using assms(1,4) by (simp add: encrypt_nonempty)
qed

theorem C2_roundtrip_witness:
  "\<exists>ct. encrypt ''HI, THERE 42'' (Vigenere_new ''KEY'') = Inr (ct, Vigenere_new ''KEY'') \<and>
        decrypt ct (Vigenere_new ''KEY'') = Inr (''HI, THERE 42'', Vigenere_new ''KEY'')"
proof -
  have k: "key (Vigenere_new ''KEY'') \<noteq> []" by (simp add: Vigenere_new_def)
  have u: "\<forall>c \<in> set (key (Vigenere_new ''KEY'')). upper_AZ c"
    by (simp add: Vigenere_new_def upper_AZ_def char_to_int_def)
  have m: "\<forall>c \<in> set ''HI, THERE 42''. isalpha c \<longrightarrow> upper_AZ c"
    by (simp add: isalpha_def upper_AZ_def char_to_int_def)
  have b: "length (key (Vigenere_new ''KEY'')) < 2 ^ 31" by (simp add: Vigenere_new_def)
  show ?thesis by (rule C2_roundtrip [OF k u m b])
qed

text \<open>
  C3: for a non-empty key of a length below \<open>2^31\<close> (the range of \<open>int keyLength\<close>),
  \<open>isEncrypted c m\<close> returns true exactly when \<open>c\<close> equals the
  string \<open>encrypt m\<close> returns under the engine's key; so it is true of \<open>encrypt m\<close> itself
  and false of every other candidate.
\<close>

theorem C3_isEncrypted_iff:
  assumes "key v \<noteq> []" and "length (key v) < 2 ^ 31"
  shows "\<exists>e. encrypt m v = Inr (e, v) \<and>
             (\<forall>c. isEncrypted c m v = Inr (c = e, v)) \<and>
             isEncrypted e m v = Inr (True, v)"
  using assms by (simp add: isEncrypted_def encrypt_nonempty)

theorem C3_isEncrypted_iff_witness:
  "key (Vigenere_new ''KEY'') \<noteq> [] \<and> length (key (Vigenere_new ''KEY'')) < 2 ^ 31 \<and>
   (\<exists>e. encrypt ''HELLO'' (Vigenere_new ''KEY'') = Inr (e, Vigenere_new ''KEY'') \<and>
        (\<forall>c. isEncrypted c ''HELLO'' (Vigenere_new ''KEY'') = Inr (c = e, Vigenere_new ''KEY'')) \<and>
        isEncrypted e ''HELLO'' (Vigenere_new ''KEY'') = Inr (True, Vigenere_new ''KEY''))"
proof -
  have k: "key (Vigenere_new ''KEY'') \<noteq> []" by (simp add: Vigenere_new_def)
  have b: "length (key (Vigenere_new ''KEY'')) < 2 ^ 31" by (simp add: Vigenere_new_def)
  show ?thesis by (intro conjI k b C3_isEncrypted_iff [OF k b])
qed

text \<open>
  C4: for a non-empty key of a length below \<open>2^31\<close> (the range of \<open>int keyLength\<close>), a
  non-alphabetic character of the message stands unchanged at
  the same position of the output of \<open>encrypt\<close> and of \<open>decrypt\<close>.
\<close>

theorem C4_passthrough:
  assumes "key v \<noteq> []" and "length (key v) < 2 ^ 31"
    and "i < length msg" and "\<not> isalpha (msg ! i)"
  shows "\<exists>e d. encrypt msg v = Inr (e, v) \<and> i < length e \<and> e ! i = msg ! i \<and>
               decrypt msg v = Inr (d, v) \<and> i < length d \<and> d ! i = msg ! i"
  using assms by (simp add: encrypt_nonempty decrypt_nonempty encrypt_at_def decrypt_at_def)

theorem C4_passthrough_witness:
  "key (Vigenere_new ''KEY'') \<noteq> [] \<and> length (key (Vigenere_new ''KEY'')) < 2 ^ 31 \<and>
   2 < length ''HI THERE'' \<and> \<not> isalpha (''HI THERE'' ! 2) \<and>
   (\<exists>e d. encrypt ''HI THERE'' (Vigenere_new ''KEY'') = Inr (e, Vigenere_new ''KEY'') \<and>
          2 < length e \<and> e ! 2 = ''HI THERE'' ! 2 \<and>
          decrypt ''HI THERE'' (Vigenere_new ''KEY'') = Inr (d, Vigenere_new ''KEY'') \<and>
          2 < length d \<and> d ! 2 = ''HI THERE'' ! 2)"
proof -
  have k: "key (Vigenere_new ''KEY'') \<noteq> []" by (simp add: Vigenere_new_def)
  have i: "2 < length ''HI THERE''" by simp
  have n: "\<not> isalpha (''HI THERE'' ! 2)" by (simp add: isalpha_def char_to_int_def)
  have b: "length (key (Vigenere_new ''KEY'')) < 2 ^ 31" by (simp add: Vigenere_new_def)
  show ?thesis by (intro conjI k b i n C4_passthrough [OF k b i n])
qed

text \<open>
  C5: for a non-empty key of a length below \<open>2^31\<close> (the range of \<open>int keyLength\<close>),
  \<open>encrypt\<close> and \<open>decrypt\<close> return a string (no fault) of the
  length of the message, and the empty message gives the empty string.
\<close>

theorem C5_length_preserved:
  assumes "key v \<noteq> []" and "length (key v) < 2 ^ 31"
  shows "\<exists>e d. encrypt msg v = Inr (e, v) \<and> length e = length msg \<and>
               decrypt msg v = Inr (d, v) \<and> length d = length msg \<and>
               encrypt [] v = Inr ([], v) \<and> decrypt [] v = Inr ([], v)"
  using assms by (simp add: encrypt_nonempty decrypt_nonempty)

theorem C5_length_preserved_witness:
  "key (Vigenere_new ''KEY'') \<noteq> [] \<and> length (key (Vigenere_new ''KEY'')) < 2 ^ 31 \<and>
   (\<exists>e d. encrypt ''HI THERE'' (Vigenere_new ''KEY'') = Inr (e, Vigenere_new ''KEY'') \<and>
          length e = length ''HI THERE'' \<and>
          decrypt ''HI THERE'' (Vigenere_new ''KEY'') = Inr (d, Vigenere_new ''KEY'') \<and>
          length d = length ''HI THERE'' \<and>
          encrypt [] (Vigenere_new ''KEY'') = Inr ([], Vigenere_new ''KEY'') \<and>
          decrypt [] (Vigenere_new ''KEY'') = Inr ([], Vigenere_new ''KEY''))"
proof -
  have k: "key (Vigenere_new ''KEY'') \<noteq> []" by (simp add: Vigenere_new_def)
  have b: "length (key (Vigenere_new ''KEY'')) < 2 ^ 31" by (simp add: Vigenere_new_def)
  show ?thesis by (intro conjI k b C5_length_preserved [OF k b])
qed

text \<open>
  C6, as the code has it: with a key of length zero, \<open>encrypt\<close>, \<open>decrypt\<close> and
  \<open>isEncrypted\<close> compute a modulo by zero exactly when the message they run the loop on
  holds an alphabetic character; a message without one is returned unchanged.
\<close>

theorem C6_empty_key_fault:
  assumes "key v = []"
  shows "(encrypt msg v = Inl ModuloByZero \<longleftrightarrow> (\<exists>c \<in> set msg. isalpha c)) \<and>
         (decrypt msg v = Inl ModuloByZero \<longleftrightarrow> (\<exists>c \<in> set msg. isalpha c)) \<and>
         (isEncrypted ct msg v = Inl ModuloByZero \<longleftrightarrow> (\<exists>c \<in> set msg. isalpha c)) \<and>
         (\<not> (\<exists>c \<in> set msg. isalpha c) \<longrightarrow>
            encrypt msg v = Inr (msg, v) \<and> decrypt msg v = Inr (msg, v) \<and>
            isEncrypted ct msg v = Inr (ct = msg, v))"
  using assms by (simp add: isEncrypted_def encrypt_empty_key decrypt_empty_key)

theorem C6_empty_key_fault_witness:
  "key (Vigenere_new []) = [] \<and> (\<exists>c \<in> set ''1A''. isalpha c) \<and>
   \<not> (\<exists>c \<in> set ''12''. isalpha c) \<and>
   encrypt ''1A'' (Vigenere_new []) = Inl ModuloByZero \<and>
   decrypt ''1A'' (Vigenere_new []) = Inl ModuloByZero \<and>
   isEncrypted ''1B'' ''1A'' (Vigenere_new []) = Inl ModuloByZero \<and>
   encrypt ''12'' (Vigenere_new []) = Inr (''12'', Vigenere_new []) \<and>
   decrypt ''12'' (Vigenere_new []) = Inr (''12'', Vigenere_new []) \<and>
   isEncrypted ''1B'' ''12'' (Vigenere_new []) = Inr (''1B'' = ''12'', Vigenere_new [])"
proof -
  have k: "key (Vigenere_new []) = []" by (simp add: Vigenere_new_def)
  have a: "\<exists>c \<in> set ''1A''. isalpha c" by (simp add: isalpha_def char_to_int_def)
  have n: "\<not> (\<exists>c \<in> set ''12''. isalpha c)" by (simp add: isalpha_def char_to_int_def)
  show ?thesis
    using C6_empty_key_fault [OF k, of "''1A''" "''1B''"]
      C6_empty_key_fault [OF k, of "''12''" "''1B''"] k a n
    by blast
qed

text \<open>
  With a key of length zero, the empty message and a message of digits and blanks go
  through all three operations without any fault.
\<close>

theorem C6_counterexample:
  "encrypt [] (Vigenere_new []) = Inr ([], Vigenere_new []) \<and>
   decrypt ''12 34'' (Vigenere_new []) = Inr (''12 34'', Vigenere_new []) \<and>
   isEncrypted ''12 34'' ''12 34'' (Vigenere_new []) = Inr (True, Vigenere_new []) \<and>
   key (Vigenere_new []) = []"
  by code_simp

text \<open>
  C7: under a non-empty key of uppercase letters, of a length below \<open>2^31\<close> (the range
  of \<open>int keyLength\<close>), a lowercase letter of the message is
  classified as alphabetic and \<open>encrypt\<close> replaces it by \<open>shiftForward\<close> of it, which is
  \<open>'A' + ((ch - 'A' + shift) mod 26)\<close> with \<open>shift\<close> the key character read at that loop
  index minus \<open>'A'\<close>.
\<close>

theorem C7_lowercase_shifted:
  assumes "key v \<noteq> []" and "\<forall>c \<in> set (key v). upper_AZ c"
    and "i < length msg" and "lower_az (msg ! i)"
    and "length (key v) < 2 ^ 31"
  shows "isalpha (msg ! i) \<and>
         (\<exists>e. encrypt msg v = Inr (e, v) \<and>
              e ! i = shiftForward (msg ! i) (char_to_int (key v ! (i mod length (key v))) - char_to_int CHR ''A'') \<and>
              e ! i = int_to_char (char_to_int CHR ''A'' +
                        (char_to_int (msg ! i) - char_to_int CHR ''A'' +
                         (char_to_int (key v ! (i mod length (key v))) - char_to_int CHR ''A'')) mod 26))"
proof -
  have alpha: "isalpha (msg ! i)"
    using assms(4) by (simp add: lower_az_def isalpha_def char_to_int_a char_to_int_z Let_def)
  have s: "0 \<le> key_shift (key v) i"
    using key_shift_range [OF assms(1,2)] by simp
  have "0 \<le> char_to_int (msg ! i) - char_to_int CHR ''A'' + key_shift (key v) i"
    using assms(4) s by (simp add: lower_az_def char_to_int_a char_to_int_A)
  then have "shiftForward (msg ! i) (key_shift (key v) i) =
             int_to_char (char_to_int CHR ''A'' +
               (char_to_int (msg ! i) - char_to_int CHR ''A'' + key_shift (key v) i) mod 26)"
    by (simp only: shiftForward_def smod_nonneg)
  then show ?thesis
    using alpha assms(1,3,5) by (simp add: encrypt_nonempty encrypt_at_def key_shift_def)
qed

theorem C7_lowercase_shifted_witness:
  "key (Vigenere_new ''KEY'') \<noteq> [] \<and> length (key (Vigenere_new ''KEY'')) < 2 ^ 31 \<and>
   1 < length ''Hello'' \<and> lower_az (''Hello'' ! 1) \<and>
   isalpha (''Hello'' ! 1) \<and>
   (\<exists>e. encrypt ''Hello'' (Vigenere_new ''KEY'') = Inr (e, Vigenere_new ''KEY'') \<and>
        e ! 1 = shiftForward (''Hello'' ! 1)
                  (char_to_int (key (Vigenere_new ''KEY'') ! (1 mod length (key (Vigenere_new ''KEY'')))) - char_to_int CHR ''A'') \<and>
        e ! 1 = int_to_char (char_to_int CHR ''A'' +
                  (char_to_int (''Hello'' ! 1) - char_to_int CHR ''A'' +
                   (char_to_int (key (Vigenere_new ''KEY'') ! (1 mod length (key (Vigenere_new ''KEY'')))) - char_to_int CHR ''A'')) mod 26))"
proof -
  have k: "key (Vigenere_new ''KEY'') \<noteq> []" by (simp add: Vigenere_new_def)
  have u: "\<forall>c \<in> set (key (Vigenere_new ''KEY'')). upper_AZ c"
    by (simp add: Vigenere_new_def upper_AZ_def char_to_int_def)
  have i: "1 < length ''Hello''" by simp
  have l: "lower_az (''Hello'' ! 1)" by (simp add: lower_az_def char_to_int_def)
  have b: "length (key (Vigenere_new ''KEY'')) < 2 ^ 31" by (simp add: Vigenere_new_def)
  show ?thesis using C7_lowercase_shifted [OF k u i l b] k b i l by blast
qed

text \<open>
  C8: with key \<open>KEY\<close>, \<open>encrypt\<close> of \<open>HELLO\<close> is \<open>RIJVS\<close>, \<open>decrypt\<close> of \<open>RIJVS\<close> is
  \<open>HELLO\<close>, and \<open>isEncrypted\<close> of \<open>RIJVS\<close> and \<open>HELLO\<close> is true.
\<close>

theorem C8_key_KEY_HELLO:
  "encrypt ''HELLO'' (Vigenere_new ''KEY'') = Inr (''RIJVS'', Vigenere_new ''KEY'') \<and>
   decrypt ''RIJVS'' (Vigenere_new ''KEY'') = Inr (''HELLO'', Vigenere_new ''KEY'') \<and>
   isEncrypted ''RIJVS'' ''HELLO'' (Vigenere_new ''KEY'') = Inr (True, Vigenere_new ''KEY'')"
  by code_simp

text \<open>
  C9: under the key \<open>A\<close>, set by \<open>setKey\<close> or given at construction, \<open>encrypt\<close> returns
  every message of uppercase letters unchanged, \<open>ABC\<close> among them; and after \<open>setKey k\<close>
  the stored key is \<open>k\<close> and every operation behaves as on an engine constructed
  with \<open>k\<close>.
\<close>

theorem C9_key_A_identity:
  assumes "\<forall>c \<in> set msg. upper_AZ c"
  shows "encrypt msg (setKey ''A'' v) = Inr (msg, setKey ''A'' v) \<and>
         encrypt msg (Vigenere_new ''A'') = Inr (msg, Vigenere_new ''A'') \<and>
         encrypt ''ABC'' (setKey ''A'' v) = Inr (''ABC'', setKey ''A'' v) \<and>
         key (setKey k v) = k \<and>
         setKey k v = Vigenere_new k \<and>
         encrypt m (setKey k v) = encrypt m (Vigenere_new k) \<and>
         decrypt m (setKey k v) = decrypt m (Vigenere_new k) \<and>
         isEncrypted c m (setKey k v) = isEncrypted c m (Vigenere_new k)"
proof -
  have sk: "setKey k' v = Vigenere_new k'" for k'
    by (simp add: setKey_def Vigenere_new_def)
  have kA: "key (Vigenere_new ''A'') \<noteq> []" by (simp add: Vigenere_new_def)
  have bA: "length (key (Vigenere_new ''A'')) < 2 ^ 31" by (simp add: Vigenere_new_def)
  have idm: "map (encrypt_at ''A'' m') [0..<length m'] = m'"
    if "\<forall>c \<in> set m'. upper_AZ c" for m'
  proof (rule nth_equalityI)
    show "length (map (encrypt_at ''A'' m') [0..<length m']) = length m'" by simp
  next
    fix i assume "i < length (map (encrypt_at ''A'' m') [0..<length m'])"
    then have i: "i < length m'" by simp
    then have "upper_AZ (m' ! i)" using that by simp
    then have "encrypt_at ''A'' m' i = m' ! i" by (simp add: encrypt_at_key_A)
    then show "map (encrypt_at ''A'' m') [0..<length m'] ! i = m' ! i" using i by simp
  qed
  have e: "encrypt m' (Vigenere_new ''A'') = Inr (m', Vigenere_new ''A'')"
    if "\<forall>c \<in> set m'. upper_AZ c" for m'
    using encrypt_nonempty [OF kA bA, of m'] idm [OF that] by (simp add: Vigenere_new_def)
  have abc: "\<forall>c \<in> set ''ABC''. upper_AZ c"
    by (simp add: upper_AZ_def char_to_int_def)
  show ?thesis using e [OF assms] e [OF abc] by (simp add: sk) (simp add: Vigenere_new_def)
qed

theorem C9_key_A_identity_witness:
  "encrypt ''XYZ'' (setKey ''A'' (Vigenere_new ''KEY'')) = Inr (''XYZ'', setKey ''A'' (Vigenere_new ''KEY'')) \<and>
   encrypt ''ABC'' (setKey ''A'' (Vigenere_new ''KEY'')) = Inr (''ABC'', setKey ''A'' (Vigenere_new ''KEY'')) \<and>
   key (setKey ''B'' (Vigenere_new ''KEY'')) = ''B''"
proof -
  have u: "\<forall>c \<in> set ''XYZ''. upper_AZ c" by (simp add: upper_AZ_def char_to_int_def)
  show ?thesis
    using C9_key_A_identity [OF u, of "Vigenere_new ''KEY''" "''B''"] by blast
qed

text \<open>
  C10: \<open>encrypt\<close>, \<open>decrypt\<close> and \<open>isEncrypted\<close> leave the stored key as it was whenever
  they return; construction and \<open>setKey\<close> store the key they are given.
\<close>

theorem C10_key_unchanged:
  "(encrypt msg v = Inr (r, v') \<longrightarrow> key v' = key v) \<and>
   (decrypt msg v = Inr (r, v') \<longrightarrow> key v' = key v) \<and>
   (isEncrypted c msg v = Inr (b, v') \<longrightarrow> key v' = key v) \<and>
   key (setKey k v) = k \<and> key (Vigenere_new k) = k"
  by (auto simp add: encrypt_def decrypt_def isEncrypted_def setKey_def Vigenere_new_def
      split: sum.splits)

theorem C10_key_unchanged_witness:
  "encrypt ''HELLO'' (Vigenere_new ''KEY'') = Inr (''RIJVS'', Vigenere_new ''KEY'') \<and>
   decrypt ''RIJVS'' (Vigenere_new ''KEY'') = Inr (''HELLO'', Vigenere_new ''KEY'') \<and>
   isEncrypted ''RIJVS'' ''HELLO'' (Vigenere_new ''KEY'') = Inr (True, Vigenere_new ''KEY'') \<and>
   key (Vigenere_new ''KEY'') = key (Vigenere_new ''KEY'')"
proof -
  have e: "encrypt ''HELLO'' (Vigenere_new ''KEY'') = Inr (''RIJVS'', Vigenere_new ''KEY'')"
    by code_simp
  have d: "decrypt ''RIJVS'' (Vigenere_new ''KEY'') = Inr (''HELLO'', Vigenere_new ''KEY'')"
    by code_simp
  have i: "isEncrypted ''RIJVS'' ''HELLO'' (Vigenere_new ''KEY'') = Inr (True, Vigenere_new ''KEY'')"
    by code_simp
  from C10_key_unchanged [of "''HELLO''" "Vigenere_new ''KEY''" "''RIJVS''" "Vigenere_new ''KEY''"]
  have "key (Vigenere_new ''KEY'') = key (Vigenere_new ''KEY'')"
    using e by blast
  with e d i show ?thesis by blast
qed

end
